theory Spec2Isabelle
  imports Complex_Main "HOL-Library.Sublist" "HOL-Library.Multiset"
begin

section \<open>Smart Stay: the hotel search of \<open>routes/ai.js\<close>\<close>

text \<open>
  The development embeds the handler \<open>router.get("/hotels/search")\<close> of
  \<open>routes/ai.js\<close> (lines 780 to 915) and the schema of \<open>models/listing.js\<close>.

  A string is the list of its UTF-16 code units, each below 256 here (the characters of
  ISO 8859-1), and a \<open>char\<close> is the code unit of its value. A finite JavaScript number
  that holds a price is a rational (every finite double is one, and \<open><\<close>, \<open>\<le>\<close> on finite
  doubles are those of the rationals); a score is an integer.
\<close>

subsection \<open>JavaScript strings\<close>

text \<open>
  \<open>toLowerCase\<close> on these code units: the letters \<open>A\<close> to \<open>Z\<close> and the capital letters
  U+00C0 to U+00DE, the multiplication sign U+00D7 apart, move up by 32.
\<close>

definition lower_char :: "char \<Rightarrow> char" where
  "lower_char c =
     (let n = (of_char c :: nat)
      in if (65 \<le> n \<and> n \<le> 90) \<or> (192 \<le> n \<and> n \<le> 222 \<and> n \<noteq> 215)
         then char_of (n + 32) else c)"

definition toLowerCase :: "string \<Rightarrow> string" where
  "toLowerCase s = map lower_char s"

text \<open>\<open>s.includes(k)\<close>: \<open>k\<close> occurs in \<open>s\<close> at some position.\<close>

fun str_includes :: "string \<Rightarrow> string \<Rightarrow> bool" where
  "str_includes [] k = (k = [])"
| "str_includes (c # s) k = (prefix k (c # s) \<or> str_includes s k)"

text \<open>\<open>s.split(',')[0]\<close>: the text before the first comma, all of \<open>s\<close> when it has none.\<close>

definition split_comma_0 :: "string \<Rightarrow> string" where
  "split_comma_0 s = takeWhile (\<lambda>c. c \<noteq> CHR '','') s"

text \<open>
  The white space that \<open>parseInt\<close> and \<open>trim\<close> skip, among the code units below 256: tab,
  line feed, vertical tab, form feed, carriage return, space and no-break space.
\<close>

definition is_space :: "char \<Rightarrow> bool" where
  "is_space c =
     (c \<in> set [CHR 0x09, CHR 0x0A, CHR 0x0B, CHR 0x0C, CHR 0x0D, CHR 0x20, CHR 0xA0])"

definition digit_val :: "char \<Rightarrow> int" where
  "digit_val c =
     (let n = (of_char c :: int) in
      if 48 \<le> n \<and> n \<le> 57 then n - 48
      else if 97 \<le> n \<and> n \<le> 122 then n - 87
      else if 65 \<le> n \<and> n \<le> 90 then n - 55
      else 36)"

definition digits_value :: "int \<Rightarrow> string \<Rightarrow> int" where
  "digits_value radix ds = foldl (\<lambda>acc c. acc * radix + digit_val c) 0 ds"

text \<open>
  The Number value of a non-negative integer: the nearest double, the even one of two
  that are equally near, and \<open>None\<close> for the infinity that an integer beyond the largest
  double becomes. A double has 53 significant bits, so an integer of \<open>k > 53\<close> bits is
  rounded to a multiple of \<open>2 ^ (k - 53)\<close>.
\<close>

function bit_length :: "int \<Rightarrow> nat" where
  "bit_length n = (if n \<le> 0 then 0 else Suc (bit_length (n div 2)))"
  by auto
termination
  by (relation "measure nat") auto

declare bit_length.simps [simp del]

definition to_double :: "int \<Rightarrow> int option" where
  "to_double n =
     (let k = bit_length n
      in if k \<le> 53 then Some n
         else (let sh = k - 53;
                   q = n div 2 ^ sh;
                   r = n mod 2 ^ sh;
                   half = 2 ^ (sh - 1);
                   q' = (if half < r \<or> (r = half \<and> odd q) then q + 1 else q);
                   v = q' * 2 ^ sh
               in if 1024 < bit_length v then None else Some v))"

text \<open>What \<open>parseInt\<close> returns: \<open>NaN\<close>, an integer that is a double, or an infinity.\<close>

datatype js_integer = NaN | MinusInfinity | Finite int | PlusInfinity

text \<open>
  \<open>parseInt(s)\<close> with no radix: leading white space is skipped, a sign is read, the
  prefix \<open>0x\<close> selects radix 16, and the longest run of digits is read; with no digit the
  result is \<open>NaN\<close>, otherwise the Number value of the integer that the digits write, as
  Node computes it for a digit string of any length.
\<close>

definition parseInt :: "string \<Rightarrow> js_integer" where
  "parseInt s =
     (let s1 = dropWhile is_space s;
          neg = (case s1 of c # _ \<Rightarrow> c = CHR ''-'' | [] \<Rightarrow> False);
          s2 = (case s1 of c # r \<Rightarrow> if c = CHR ''-'' \<or> c = CHR ''+'' then r else s1 | [] \<Rightarrow> s1);
          hex = (prefix ''0x'' s2 \<or> prefix ''0X'' s2);
          radix = (if hex then 16 else 10);
          s3 = (if hex then drop 2 s2 else s2);
          ds = takeWhile (\<lambda>c. digit_val c < radix) s3
      in if ds = [] then NaN
         else (case to_double (digits_value radix ds) of
                 None \<Rightarrow> if neg then MinusInfinity else PlusInfinity
               | Some v \<Rightarrow> Finite (if neg then - v else v)))"

text \<open>\<open>p || ''\<close> on an optional string field.\<close>

definition or_empty :: "string option \<Rightarrow> string" where
  "or_empty p = (case p of None \<Rightarrow> [] | Some s \<Rightarrow> s)"

subsection \<open>Documents, parameters and the response\<close>

text \<open>
  The field \<open>price: Number\<close> of a stored document: a finite number or an infinity, or
  \<open>null\<close>, which Mongoose stores for a price submitted empty, or no field at all, read as
  \<open>undefined\<close>. The cast to \<open>Number\<close> refuses \<open>NaN\<close>.
\<close>

datatype js_price = Undefined | Null | Number rat | PlusInf | MinusInf

text \<open>
  The schema of \<open>models/listing.js\<close>, with the document's \<open>_id\<close> as \<open>hid\<close>. Only \<open>title\<close>
  is required and \<open>amenities\<close> defaults to the empty array; a string or array field that
  a stored document lacks is \<open>None\<close>.
\<close>

record hotel =
  hid :: string
  title :: "string option"
  description :: "string option"
  image :: "string option"
  price :: js_price
  location :: "string option"
  country :: "string option"
  amenities :: "string list option"

text \<open>
  An element of the array \<open>hotels\<close>: the document as read, and the field \<open>matchScore\<close>
  that \<open>{ ...hotel, matchScore: ... }\<close> adds to its copy.
\<close>

record entry =
  doc :: hotel
  matchScore :: "int option"

text \<open>\<open>req.query\<close>, destructured into \<open>query\<close>, \<open>location\<close>, \<open>maxPrice\<close> and \<open>amenity\<close>.\<close>

record params =
  query :: "string option"
  locationQ :: "string option"
  maxPrice :: "string option"
  amenity :: "string option"

text \<open>
  The filter handed to \<open>Listing.find\<close>: \<open>location: { $regex, $options: 'i' }\<close> and
  \<open>price: { $lte }\<close>, each present or not; the bound is what \<open>parseInt\<close> returned.
\<close>

record find_filter =
  f_location :: "string option"
  f_price :: "js_integer option"

datatype search_error = SearchFailed

record response =
  success :: bool
  count :: nat
  hotels :: "entry list"

subsection \<open>The storage collaborator\<close>

text \<open>
  Modelled from the spec: \<open>Listing.find(filter).lean()\<close> is Mongoose over MongoDB and is
  not in the repository. Section 6 of the specification gives the collaborator as
  \<open>find(filter)\<close>, a sequence of records, with a case-insensitive match on \<open>location\<close> and
  a less-than-or-equal comparison on \<open>price\<close>. The collection is the list \<open>db\<close> in its
  stored order. The match of a pattern against a location is the parameter \<open>rx\<close>, so that
  nothing is assumed on how a pattern is read. A document that lacks the field, or holds
  \<open>null\<close> in it, fails the condition on it. A bound that is \<open>NaN\<close> cannot be cast to the
  schema's \<open>Number\<close>: the call throws, and the handler's \<open>catch\<close> answers 500.
\<close>

definition price_lte :: "js_integer \<Rightarrow> hotel \<Rightarrow> bool" where
  "price_lte b h =
     (case price h of
        Number p \<Rightarrow>
          (case b of Finite n \<Rightarrow> p \<le> of_int n | PlusInfinity \<Rightarrow> True | _ \<Rightarrow> False)
      | MinusInf \<Rightarrow> b \<noteq> NaN
      | PlusInf \<Rightarrow> b = PlusInfinity
      | _ \<Rightarrow> False)"

definition location_matches :: "(string \<Rightarrow> string \<Rightarrow> bool) \<Rightarrow> string \<Rightarrow> hotel \<Rightarrow> bool" where
  "location_matches rx pat h = (case location h of None \<Rightarrow> False | Some l \<Rightarrow> rx pat l)"

definition satisfies :: "(string \<Rightarrow> string \<Rightarrow> bool) \<Rightarrow> find_filter \<Rightarrow> hotel \<Rightarrow> bool" where
  "satisfies rx f h =
     ((case f_location f of None \<Rightarrow> True | Some pat \<Rightarrow> location_matches rx pat h) \<and>
      (case f_price f of None \<Rightarrow> True | Some b \<Rightarrow> price_lte b h))"

definition Listing_find ::
  "(string \<Rightarrow> string \<Rightarrow> bool) \<Rightarrow> hotel list \<Rightarrow> find_filter \<Rightarrow> search_error + hotel list" where
  "Listing_find rx db f =
     (if f_price f = Some NaN then Inl SearchFailed else Inr (filter (satisfies rx f) db))"

text \<open>
  Modelled from the spec: the reading of \<open>$regex\<close> with \<open>$options: 'i'\<close> that section 4.1
  gives, a case-insensitive substring. It instantiates \<open>rx\<close> in the examples.
\<close>

definition substring_i :: "string \<Rightarrow> string \<Rightarrow> bool" where
  "substring_i pat l = str_includes (toLowerCase l) (toLowerCase pat)"

subsection \<open>The handler\<close>

definition build_filter :: "params \<Rightarrow> find_filter" where
  "build_filter p =
     (let filter0 = \<lparr>f_location = None, f_price = None\<rparr>;
          filter1 = (case locationQ p of
                       None \<Rightarrow> filter0
                     | Some l \<Rightarrow> if l \<noteq> [] then filter0\<lparr>f_location := Some l\<rparr> else filter0)
      in (case maxPrice p of
            None \<Rightarrow> filter1
          | Some m \<Rightarrow> if m \<noteq> [] then filter1\<lparr>f_price := Some (parseInt m)\<rparr> else filter1))"

definition keywords_list :: "string list" where
  "keywords_list =
     [''pool'', ''wifi'', ''parking'', ''beach'', ''ac'', ''air conditioning'',
      ''kitchen'', ''gym'', ''spa'', ''garden'', ''luxury'', ''budget'',
      ''family'', ''couple'', ''business'', ''mountain'', ''hill'', ''sea'']"

text \<open>\<open>hotel.amenities && hotel.amenities.some(a => a.toLowerCase().includes(keyword))\<close>\<close>

definition amenities_some :: "hotel \<Rightarrow> string \<Rightarrow> bool" where
  "amenities_some h k =
     (case amenities h of None \<Rightarrow> False
      | Some as \<Rightarrow> list_ex (\<lambda>a. str_includes (toLowerCase a) k) as)"

text \<open>The body of \<open>keywords.forEach\<close>, on the running \<open>score\<close>.\<close>

definition keyword_step :: "string \<Rightarrow> hotel \<Rightarrow> int \<Rightarrow> string \<Rightarrow> int" where
  "keyword_step queryLower h score keyword =
     (let descLower = toLowerCase (or_empty (description h));
          titleLower = toLowerCase (or_empty (title h))
      in if str_includes queryLower keyword then
           (let score1 = (if str_includes descLower keyword \<or> str_includes titleLower keyword
                          then score + 20 else score)
            in if amenities_some h keyword then score1 + 25 else score1)
         else score)"

definition keyword_score :: "string \<Rightarrow> hotel \<Rightarrow> int" where
  "keyword_score queryLower h = foldl (keyword_step queryLower h) 0 keywords_list"

definition location_bonus :: "string \<Rightarrow> hotel \<Rightarrow> int" where
  "location_bonus queryLower h =
     (let locationLower = toLowerCase (or_empty (location h))
      in if str_includes queryLower (toLowerCase (split_comma_0 locationLower)) then 30 else 0)"

text \<open>
  \<open>v < c\<close>, \<open>v > c\<close>, \<open>v >= c\<close> and \<open>v <= c\<close> for a price \<open>v\<close> and a finite number \<open>c\<close>: both
  sides are compared as numbers, \<open>null\<close> being converted to 0 and \<open>undefined\<close> to \<open>NaN\<close>,
  and a comparison with \<open>NaN\<close> is false.
\<close>

definition js_lt :: "js_price \<Rightarrow> rat \<Rightarrow> bool" where
  "js_lt v c =
     (case v of Number p \<Rightarrow> p < c | Null \<Rightarrow> 0 < c | MinusInf \<Rightarrow> True | PlusInf \<Rightarrow> False
      | Undefined \<Rightarrow> False)"

definition js_gt :: "js_price \<Rightarrow> rat \<Rightarrow> bool" where
  "js_gt v c =
     (case v of Number p \<Rightarrow> p > c | Null \<Rightarrow> 0 > c | MinusInf \<Rightarrow> False | PlusInf \<Rightarrow> True
      | Undefined \<Rightarrow> False)"

definition js_ge :: "js_price \<Rightarrow> rat \<Rightarrow> bool" where
  "js_ge v c =
     (case v of Number p \<Rightarrow> p \<ge> c | Null \<Rightarrow> 0 \<ge> c | MinusInf \<Rightarrow> False | PlusInf \<Rightarrow> True
      | Undefined \<Rightarrow> False)"

definition js_le :: "js_price \<Rightarrow> rat \<Rightarrow> bool" where
  "js_le v c =
     (case v of Number p \<Rightarrow> p \<le> c | Null \<Rightarrow> 0 \<le> c | MinusInf \<Rightarrow> True | PlusInf \<Rightarrow> False
      | Undefined \<Rightarrow> False)"

definition budget_bonus :: "string \<Rightarrow> hotel \<Rightarrow> int" where
  "budget_bonus queryLower h =
     (if str_includes queryLower ''budget'' \<and> js_lt (price h) 3000 then 15 else 0)"

definition luxury_bonus :: "string \<Rightarrow> hotel \<Rightarrow> int" where
  "luxury_bonus queryLower h =
     (if str_includes queryLower ''luxury'' \<and> js_gt (price h) 4000 then 15 else 0)"

definition mid_bonus :: "string \<Rightarrow> hotel \<Rightarrow> int" where
  "mid_bonus queryLower h =
     (if str_includes queryLower ''mid'' \<and> js_ge (price h) 2500 \<and> js_le (price h) 4500
      then 15 else 0)"

definition raw_score :: "string \<Rightarrow> hotel \<Rightarrow> int" where
  "raw_score queryLower h =
     keyword_score queryLower h + location_bonus queryLower h
       + budget_bonus queryLower h + luxury_bonus queryLower h + mid_bonus queryLower h"

text \<open>The function mapped over \<open>hotels\<close>.\<close>

definition score_hotel :: "string \<Rightarrow> hotel \<Rightarrow> entry" where
  "score_hotel queryLower h = \<lparr>doc = h, matchScore = Some (min (raw_score queryLower h) 100)\<rparr>"

text \<open>
  \<open>(a, b) => b.matchScore - a.matchScore\<close>. The difference is \<open>NaN\<close> when a side has no
  \<open>matchScore\<close>, and \<open>sort\<close> reads \<open>NaN\<close> as 0.
\<close>

definition by_score :: "entry \<Rightarrow> entry \<Rightarrow> int" where
  "by_score a b =
     (case (matchScore b, matchScore a) of (Some sb, Some sa) \<Rightarrow> sb - sa | _ \<Rightarrow> 0)"

text \<open>
  \<open>Array.prototype.sort\<close> with a comparator, which ECMAScript 2019 requires to be
  stable: \<open>a\<close> stays before a later \<open>b\<close> unless the comparator is positive on \<open>(a, b)\<close>.
  The model is the insertion sort that puts each element before the first element of
  the sorted rest that it does not follow.
\<close>

fun insert_by :: "('a \<Rightarrow> 'a \<Rightarrow> int) \<Rightarrow> 'a \<Rightarrow> 'a list \<Rightarrow> 'a list" where
  "insert_by cmp x [] = [x]"
| "insert_by cmp x (y # ys) = (if cmp x y \<le> 0 then x # y # ys else y # insert_by cmp x ys)"

definition array_sort :: "('a \<Rightarrow> 'a \<Rightarrow> int) \<Rightarrow> 'a list \<Rightarrow> 'a list" where
  "array_sort cmp xs = foldr (insert_by cmp) xs []"

definition unscored :: "hotel \<Rightarrow> entry" where
  "unscored h = \<lparr>doc = h, matchScore = None\<rparr>"

text \<open>The block under \<open>if (query && hotels.length > 0)\<close>.\<close>

definition scoring_stage :: "string option \<Rightarrow> hotel list \<Rightarrow> entry list" where
  "scoring_stage q found =
     (case q of
        None \<Rightarrow> map unscored found
      | Some qs \<Rightarrow>
          if qs \<noteq> [] \<and> length found > 0
          then array_sort by_score (map (score_hotel (toLowerCase qs)) found)
          else map unscored found)"

text \<open>\<open>hotel.amenities || []\<close>\<close>

definition amenities_or_empty :: "hotel \<Rightarrow> string list" where
  "amenities_or_empty h = (case amenities h of None \<Rightarrow> [] | Some as \<Rightarrow> as)"

text \<open>The predicate of the filter under \<open>if (amenity)\<close>.\<close>

definition amenity_ok :: "string \<Rightarrow> entry \<Rightarrow> bool" where
  "amenity_ok amenityLower e =
     (let desc = toLowerCase (or_empty (description (doc e)));
          ams = amenities_or_empty (doc e)
      in str_includes desc amenityLower \<or> list_ex (\<lambda>a. str_includes (toLowerCase a) amenityLower) ams)"

definition amenity_stage :: "string option \<Rightarrow> entry list \<Rightarrow> entry list" where
  "amenity_stage a es =
     (case a of
        None \<Rightarrow> es
      | Some am \<Rightarrow> if am \<noteq> [] then filter (amenity_ok (toLowerCase am)) es else es)"

definition hotel_search ::
  "(string \<Rightarrow> string \<Rightarrow> bool) \<Rightarrow> hotel list \<Rightarrow> params \<Rightarrow> search_error + response" where
  "hotel_search rx db p =
     (case Listing_find rx db (build_filter p) of
        Inl e \<Rightarrow> Inl e
      | Inr found \<Rightarrow>
          (let hotels1 = scoring_stage (query p) found;
               hotels2 = amenity_stage (amenity p) hotels1;
               hotels3 = take 20 hotels2
           in Inr \<lparr>success = True, count = length hotels3, hotels = hotels3\<rparr>))"

subsection \<open>The handler on a heap of objects\<close>

text \<open>
  The same handler with its objects in a heap, so that a write to an object is a change
  of the heap. An object is an \<open>entry\<close>, a document read by \<open>lean()\<close> being one without
  \<open>matchScore\<close>; a reference is the index of the object in the heap, and a new object is
  put at the end. An array of the handler is the list of the references it holds; each
  of them was returned by \<open>alloc\<close>, so it is below the length of the heap and \<open>H ! a\<close> is
  the object it denotes.
\<close>

type_synonym heap = "entry list"

definition alloc :: "heap \<Rightarrow> entry \<Rightarrow> heap \<times> nat" where
  "alloc H obj = (H @ [obj], length H)"

text \<open>
  \<open>Listing.find(filter).lean()\<close>: a new plain object for each document found, and the
  array of their references.
\<close>

fun lean :: "heap \<Rightarrow> hotel list \<Rightarrow> heap \<times> nat list" where
  "lean H [] = (H, [])"
| "lean H (d # ds) =
     (let (H1, a) = alloc H (unscored d);
          (H2, as) = lean H1 ds
      in (H2, a # as))"

text \<open>
  \<open>hotels.map(hotel => ...)\<close>: for each reference in turn the callback reads the object
  and returns \<open>{ ...hotel, matchScore: Math.min(score, 100) }\<close>, a new object.
\<close>

fun map_score :: "string \<Rightarrow> heap \<Rightarrow> nat list \<Rightarrow> heap \<times> nat list" where
  "map_score queryLower H [] = (H, [])"
| "map_score queryLower H (a # as) =
     (let hotel = H ! a;
          (H1, b) = alloc H (hotel\<lparr>matchScore := Some (min (raw_score queryLower (doc hotel)) 100)\<rparr>);
          (H2, bs) = map_score queryLower H1 as
      in (H2, b # bs))"

text \<open>
  The block under \<open>if (query && hotels.length > 0)\<close>: \<open>hotels\<close> becomes the mapped array,
  which \<open>sort\<close> then orders, the comparator reading \<open>matchScore\<close> through the references.
\<close>

definition score_refs :: "string option \<Rightarrow> heap \<Rightarrow> nat list \<Rightarrow> heap \<times> nat list" where
  "score_refs q H hotels0 =
     (case q of
        None \<Rightarrow> (H, hotels0)
      | Some qs \<Rightarrow>
          if qs \<noteq> [] \<and> length hotels0 > 0
          then (let (H1, hotels1) = map_score (toLowerCase qs) H hotels0
                in (H1, array_sort (\<lambda>a b. by_score (H1 ! a) (H1 ! b)) hotels1))
          else (H, hotels0))"

text \<open>The filter under \<open>if (amenity)\<close>, on references.\<close>

definition amenity_refs :: "string option \<Rightarrow> heap \<Rightarrow> nat list \<Rightarrow> nat list" where
  "amenity_refs a H hotels1 =
     (case a of
        None \<Rightarrow> hotels1
      | Some am \<Rightarrow>
          if am \<noteq> [] then filter (\<lambda>r. amenity_ok (toLowerCase am) (H ! r)) hotels1 else hotels1)"

text \<open>
  The handler from a heap \<open>H\<close>: it returns the heap it leaves and the response, in which
  \<open>res.json\<close> writes the objects that the first 20 references denote.
\<close>

definition run_search ::
  "(string \<Rightarrow> string \<Rightarrow> bool) \<Rightarrow> hotel list \<Rightarrow> params \<Rightarrow> heap \<Rightarrow> heap \<times> (search_error + response)" where
  "run_search rx db p H =
     (case Listing_find rx db (build_filter p) of
        Inl e \<Rightarrow> (H, Inl e)
      | Inr found \<Rightarrow>
          (let (H1, hotels0) = lean H found;
               (H2, hotels1) = score_refs (query p) H1 hotels0;
               hotels2 = amenity_refs (amenity p) H2 hotels1;
               hotels3 = take 20 hotels2
           in (H2, Inr \<lparr>success = True, count = length hotels3,
                        hotels = map (\<lambda>r. H2 ! r) hotels3\<rparr>)))"

subsection \<open>The specification's words\<close>

text \<open>\<open>k\<close> appears (substring, case-insensitive) in \<open>s\<close>.\<close>

definition ci_substring :: "string \<Rightarrow> string \<Rightarrow> bool" where
  "ci_substring k s = sublist (toLowerCase k) (toLowerCase s)"

text \<open>
  Step 3b of section 4.1, for one keyword: 20 points when the keyword appears in the
  query and in the title or the description, 25 more when it appears in the query and in
  an element of the amenities.
\<close>

definition spec_keyword_points :: "string \<Rightarrow> hotel \<Rightarrow> string \<Rightarrow> int" where
  "spec_keyword_points q h k =
     (if ci_substring k q \<and>
         (ci_substring k (or_empty (title h)) \<or> ci_substring k (or_empty (description h)))
      then 20 else 0)
     + (if ci_substring k q \<and> (\<exists>a \<in> set (amenities_or_empty h). ci_substring k a)
        then 25 else 0)"

text \<open>The order of the sorted list: both entries carry a score, the first the larger.\<close>

definition score_ge :: "entry \<Rightarrow> entry \<Rightarrow> bool" where
  "score_ge a b = (\<exists>sa sb. matchScore a = Some sa \<and> matchScore b = Some sb \<and> sb \<le> sa)"

text \<open>
  The segment "trimmed" of surrounding white space, and the location bonus as step 3c of
  section 4.1 words it: on the first comma-delimited segment, lower-cased and trimmed.
\<close>

definition trim :: "string \<Rightarrow> string" where
  "trim s = rev (dropWhile is_space (rev (dropWhile is_space s)))"

definition spec_location_bonus :: "string \<Rightarrow> hotel \<Rightarrow> int" where
  "spec_location_bonus q h =
     (if sublist (trim (toLowerCase (split_comma_0 (or_empty (location h))))) (toLowerCase q)
      then 30 else 0)"


subsection \<open>Example data\<close>

text \<open>The record of the handler's own comment, and a record without the optional fields.\<close>

definition beach_resort :: hotel where
  "beach_resort =
     \<lparr>hid = ''64abc'', title = Some ''Beach Resort'',
      description = Some ''Rooms with a view and a pool'', image = None, price = Number 3500,
      location = Some ''Calangute, Goa'', country = Some ''India'',
      amenities = Some [''Pool'', ''WiFi'', ''Parking'']\<rparr>"

definition hill_cottage :: hotel where
  "hill_cottage =
     \<lparr>hid = ''64abd'', title = Some ''Hill Cottage'', description = None, image = None,
      price = Number 2700, location = Some ''Goa , India'', country = None, amenities = None\<rparr>"

definition pool_query :: params where
  "pool_query =
     \<lparr>query = Some ''Budget hotel with POOL'', locationQ = Some ''goa'',
      maxPrice = Some ''5000'', amenity = Some ''wifi''\<rparr>"

definition hill_annexe :: hotel where
  "hill_annexe = hill_cottage\<lparr>hid := ''64abf''\<rparr>"

definition sea_view :: hotel where
  "sea_view =
     \<lparr>hid = ''64abe'', title = Some ''Beachside Inn'', description = Some '''', image = None,
      price = Number (30005 / 10), location = Some '''', country = None, amenities = Some []\<rparr>"

definition pool_only :: params where
  "pool_only = \<lparr>query = Some ''pool'', locationQ = None, maxPrice = None, amenity = None\<rparr>"

definition no_params :: params where
  "no_params = \<lparr>query = None, locationQ = None, maxPrice = None, amenity = None\<rparr>"



subsection \<open>Substrings and lower case\<close>

lemma str_includes_sublist: "str_includes s k = sublist k s"
  by (induction s) (auto simp: sublist_Cons_right)

lemma lower_char_idem: "lower_char (lower_char c) = lower_char c"
proof (cases "(65 \<le> (of_char c :: nat) \<and> (of_char c :: nat) \<le> 90)
             \<or> (192 \<le> (of_char c :: nat) \<and> (of_char c :: nat) \<le> 222 \<and> (of_char c :: nat) \<noteq> 215)")
  case True
  then have l: "lower_char c = char_of ((of_char c :: nat) + 32)"
    by (simp add: lower_char_def)
  have "(of_char (char_of ((of_char c :: nat) + 32)) :: nat) = of_char c + 32"
    using True by (auto simp: of_char_of)
  then have "lower_char (char_of ((of_char c :: nat) + 32)) = char_of ((of_char c :: nat) + 32)"
    using True by (auto simp: lower_char_def Let_def)
  then show ?thesis by (simp add: l)
next
  case False
  then have "lower_char c = c"
    by (auto simp: lower_char_def Let_def)
  then show ?thesis by simp
qed

lemma toLowerCase_idem: "toLowerCase (toLowerCase s) = toLowerCase s"
  by (simp add: toLowerCase_def lower_char_idem)

lemma sublist_toLowerCase: "sublist k s \<Longrightarrow> sublist (toLowerCase k) (toLowerCase s)"
  unfolding toLowerCase_def by (rule map_mono_sublist)

lemma keywords_lower: "k \<in> set keywords_list \<Longrightarrow> toLowerCase k = k"
proof -
  have "list_all (\<lambda>k. toLowerCase k = k) keywords_list" by code_simp
  then show "k \<in> set keywords_list \<Longrightarrow> toLowerCase k = k"
    by (simp add: list_all_iff)
qed

subsection \<open>The keyword loop\<close>

lemma amenities_some_iff:
  "toLowerCase k = k \<Longrightarrow>
   amenities_some h k \<longleftrightarrow> (\<exists>a \<in> set (amenities_or_empty h). ci_substring k a)"
  by (auto simp: amenities_some_def amenities_or_empty_def ci_substring_def list_ex_iff
      str_includes_sublist split: option.splits)

lemma keyword_step_points:
  assumes "toLowerCase k = k"
  shows "keyword_step (toLowerCase q) h s k = s + spec_keyword_points q h k"
  unfolding keyword_step_def spec_keyword_points_def Let_def str_includes_sublist
    amenities_some_iff [OF assms]
  by (auto simp: ci_substring_def assms)

lemma foldl_keyword_step:
  "\<forall>k \<in> set ks. toLowerCase k = k \<Longrightarrow>
   foldl (keyword_step (toLowerCase q) h) s ks = s + (\<Sum>k\<leftarrow>ks. spec_keyword_points q h k)"
  by (induction ks arbitrary: s) (simp_all add: keyword_step_points)

lemma keyword_score_points:
  "keyword_score (toLowerCase q) h = (\<Sum>k\<leftarrow>keywords_list. spec_keyword_points q h k)"
  by (simp add: keyword_score_def foldl_keyword_step keywords_lower)

lemma spec_keyword_points_nonneg: "0 \<le> spec_keyword_points q h k"
  by (simp add: spec_keyword_points_def)

lemma keyword_score_nonneg: "0 \<le> keyword_score (toLowerCase q) h"
  unfolding keyword_score_points
  by (auto intro!: sum_list_nonneg simp: spec_keyword_points_nonneg)

text \<open>
  C1. For every record and every keyword of the fixed vocabulary, the loop adds 20 exactly
  when the keyword is a case-insensitive substring of the query and of the title or the
  description, and 25 more exactly when it is one of the query and of an element of the
  amenities; a keyword that is not in the query adds nothing. The loop's result is the sum
  of these points over the vocabulary.
\<close>

theorem keyword_scoring:
  "keywords_list =
     [''pool'', ''wifi'', ''parking'', ''beach'', ''ac'', ''air conditioning'', ''kitchen'',
      ''gym'', ''spa'', ''garden'', ''luxury'', ''budget'', ''family'', ''couple'',
      ''business'', ''mountain'', ''hill'', ''sea'']
   \<and> (k \<in> set keywords_list \<longrightarrow>
        keyword_step (toLowerCase q) h s k = s + spec_keyword_points q h k)
   \<and> keyword_score (toLowerCase q) h = (\<Sum>k\<leftarrow>keywords_list. spec_keyword_points q h k)"
  by (simp add: keywords_list_def [symmetric] keyword_step_points keywords_lower
      keyword_score_points)

theorem keyword_scoring_witness:
  "''pool'' \<in> set keywords_list
   \<and> keyword_step (toLowerCase ''Budget hotel with POOL'') beach_resort 0 ''pool'' = 45
   \<and> keyword_score (toLowerCase ''Budget hotel with POOL'') beach_resort = 45"
proof -
  have mem: "''pool'' \<in> set keywords_list"
    by (simp add: keywords_list_def)
  have "spec_keyword_points ''Budget hotel with POOL'' beach_resort ''pool'' = 45"
    and "(\<Sum>k\<leftarrow>keywords_list. spec_keyword_points ''Budget hotel with POOL'' beach_resort k) = 45"
    by code_simp+
  then show ?thesis
    using mem keyword_scoring [of "''pool''" "''Budget hotel with POOL''" beach_resort 0]
    by simp
qed

subsection \<open>The bonuses and the clamp\<close>

text \<open>
  C3. 15 points are added iff the lower-cased query contains \<open>budget\<close> and the price is
  below 3000; 15 iff it contains \<open>luxury\<close> and the price is above 4000; 15 iff it contains
  \<open>mid\<close> and the price is between 2500 and 4500, bounds included. The three are tested
  one after the other and each adds to the same score. The price is compared as a
  number: a stored \<open>null\<close> counts as 0, an infinite price is below or above every bound,
  and no comparison holds without the field.
\<close>

theorem price_bonuses:
  "budget_bonus (toLowerCase q) h =
     (if sublist ''budget'' (toLowerCase q)
         \<and> (case price h of Number p \<Rightarrow> p < 3000 | Null \<Rightarrow> True | MinusInf \<Rightarrow> True
             | _ \<Rightarrow> False)
      then 15 else 0)
   \<and> luxury_bonus (toLowerCase q) h =
     (if sublist ''luxury'' (toLowerCase q)
         \<and> (case price h of Number p \<Rightarrow> 4000 < p | PlusInf \<Rightarrow> True | _ \<Rightarrow> False)
      then 15 else 0)
   \<and> mid_bonus (toLowerCase q) h =
     (if sublist ''mid'' (toLowerCase q)
         \<and> (case price h of Number p \<Rightarrow> 2500 \<le> p \<and> p \<le> 4500 | _ \<Rightarrow> False)
      then 15 else 0)
   \<and> raw_score (toLowerCase q) h =
       keyword_score (toLowerCase q) h + location_bonus (toLowerCase q) h
         + budget_bonus (toLowerCase q) h + luxury_bonus (toLowerCase q) h
         + mid_bonus (toLowerCase q) h"
  by (cases "price h")
    (simp_all add: budget_bonus_def luxury_bonus_def mid_bonus_def raw_score_def js_lt_def
      js_gt_def js_ge_def js_le_def str_includes_sublist)

theorem price_bonuses_witness:
  "budget_bonus (toLowerCase ''Budget or MID-range'') hill_cottage = 15
   \<and> luxury_bonus (toLowerCase ''Budget or MID-range'') hill_cottage = 0
   \<and> mid_bonus (toLowerCase ''Budget or MID-range'') hill_cottage = 15
   \<and> budget_bonus (toLowerCase ''Budget or MID-range'') (hill_cottage\<lparr>price := Null\<rparr>) = 15
   \<and> mid_bonus (toLowerCase ''Budget or MID-range'') (hill_cottage\<lparr>price := Null\<rparr>) = 0"
proof -
  have "sublist ''budget'' (toLowerCase ''Budget or MID-range'')"
       "sublist ''mid'' (toLowerCase ''Budget or MID-range'')"
       "\<not> sublist ''luxury'' (toLowerCase ''Budget or MID-range'')"
    by code_simp+
  moreover have "price hill_cottage = Number 2700"
    by (simp add: hill_cottage_def)
  ultimately show ?thesis
    using price_bonuses [of "''Budget or MID-range''" hill_cottage]
      price_bonuses [of "''Budget or MID-range''" "hill_cottage\<lparr>price := Null\<rparr>"]
    by simp
qed

lemma location_bonus_nonneg: "0 \<le> location_bonus ql h"
  by (simp add: location_bonus_def Let_def)

lemma raw_score_nonneg: "0 \<le> raw_score (toLowerCase q) h"
proof -
  have "0 \<le> budget_bonus (toLowerCase q) h" "0 \<le> luxury_bonus (toLowerCase q) h"
       "0 \<le> mid_bonus (toLowerCase q) h"
    by (simp_all add: budget_bonus_def luxury_bonus_def mid_bonus_def)
  then show ?thesis
    using keyword_score_nonneg [of q h] location_bonus_nonneg [of "toLowerCase q" h]
    by (simp add: raw_score_def)
qed

subsection \<open>The stages of the handler\<close>

lemma scoring_stage_scored:
  "qs \<noteq> [] \<Longrightarrow> found \<noteq> [] \<Longrightarrow>
   scoring_stage (Some qs) found = array_sort by_score (map (score_hotel (toLowerCase qs)) found)"
  by (simp add: scoring_stage_def)

lemma scoring_stage_unscored:
  "q = None \<or> q = Some [] \<or> found = [] \<Longrightarrow> scoring_stage q found = map unscored found"
  by (auto simp: scoring_stage_def split: option.splits)

lemma scoring_stage_cases:
  "(\<exists>qs. q = Some qs \<and> qs \<noteq> [] \<and> found \<noteq> [] \<and>
      scoring_stage q found = array_sort by_score (map (score_hotel (toLowerCase qs)) found))
   \<or> ((q = None \<or> q = Some [] \<or> found = []) \<and> scoring_stage q found = map unscored found)"
  by (cases q) (auto simp: scoring_stage_def)

lemma set_amenity_stage: "set (amenity_stage a es) \<subseteq> set es"
  by (auto simp: amenity_stage_def split: option.splits)

lemma hotel_search_Inr:
  assumes "hotel_search rx db p = Inr r"
  obtains found where "Listing_find rx db (build_filter p) = Inr found"
    and "hotels r = take 20 (amenity_stage (amenity p) (scoring_stage (query p) found))"
    and "count r = length (hotels r)" and "success r"
  using assms by (auto simp: hotel_search_def Let_def split: sum.splits)

lemma Listing_find_Inr:
  "Listing_find rx db f = Inr found \<Longrightarrow> found = filter (satisfies rx f) db"
  by (auto simp: Listing_find_def split: if_splits)

subsection \<open>Sorting\<close>

lemma array_sort_Nil: "array_sort cmp [] = []"
  by (simp add: array_sort_def)

lemma array_sort_Cons: "array_sort cmp (x # xs) = insert_by cmp x (array_sort cmp xs)"
  by (simp add: array_sort_def)

lemma set_insert_by: "set (insert_by cmp x ys) = insert x (set ys)"
  by (induction ys) auto

lemma mset_insert_by: "mset (insert_by cmp x ys) = add_mset x (mset ys)"
  by (induction ys) auto

lemma mset_array_sort: "mset (array_sort cmp xs) = mset xs"
  by (induction xs) (simp_all add: array_sort_Nil array_sort_Cons mset_insert_by)

lemma set_array_sort: "set (array_sort cmp xs) = set xs"
  using mset_array_sort [of cmp xs] by (metis set_mset_mset)

subsection \<open>The entries of a response\<close>

lemma entry_of_response:
  assumes "hotel_search rx db p = Inr r" and "e \<in> set (hotels r)"
  shows "doc e \<in> set db \<and>
         ((\<exists>qs. query p = Some qs \<and> qs \<noteq> [] \<and>
                matchScore e = Some (min (raw_score (toLowerCase qs) (doc e)) 100))
          \<or> ((query p = None \<or> query p = Some []) \<and> matchScore e = None))"
proof -
  from assms(1) obtain found where f: "Listing_find rx db (build_filter p) = Inr found"
    and h: "hotels r = take 20 (amenity_stage (amenity p) (scoring_stage (query p) found))"
    by (rule hotel_search_Inr)
  have sub: "set found \<subseteq> set db"
    using Listing_find_Inr [OF f] by auto
  have mem: "e \<in> set (scoring_stage (query p) found)"
    using assms(2) h set_amenity_stage [of "amenity p"] by (auto dest: in_set_takeD)
  then have ne: "found \<noteq> []"
    using scoring_stage_cases [of "query p" found] by auto
  consider qs where "query p = Some qs" "qs \<noteq> []"
      "scoring_stage (query p) found = array_sort by_score (map (score_hotel (toLowerCase qs)) found)"
    | "query p = None \<or> query p = Some []" "scoring_stage (query p) found = map unscored found"
    using scoring_stage_cases [of "query p" found] ne by auto
  then show ?thesis
  proof cases
    case 1
    then have "e \<in> score_hotel (toLowerCase qs) ` set found"
      using mem by (simp add: set_array_sort)
    then show ?thesis
      using 1 sub by (auto simp: score_hotel_def)
  next
    case 2
    then have "e \<in> unscored ` set found"
      using mem by simp
    then show ?thesis
      using 2 sub by (auto simp: unscored_def)
  qed
qed

text \<open>
  C4. Every \<open>matchScore\<close> of a response is an integer from 0 to 100: it is the raw sum cut
  at 100, and the raw sum is not negative, every contribution being 0 or more.
\<close>

theorem matchScore_range:
  assumes "hotel_search rx db p = Inr r" and "e \<in> set (hotels r)" and "matchScore e = Some s"
  shows "0 \<le> s \<and> s \<le> 100 \<and>
         (\<exists>qs. query p = Some qs \<and> s = min (raw_score (toLowerCase qs) (doc e)) 100
               \<and> 0 \<le> raw_score (toLowerCase qs) (doc e))"
proof -
  from entry_of_response [OF assms(1,2)] assms(3)
  obtain qs where q: "query p = Some qs"
    and "matchScore e = Some (min (raw_score (toLowerCase qs) (doc e)) 100)"
    by auto
  then have "s = min (raw_score (toLowerCase qs) (doc e)) 100"
    using assms(3) by simp
  then show ?thesis
    using q raw_score_nonneg [of qs "doc e"] by auto
qed

theorem matchScore_range_witness:
  "hotel_search substring_i [hill_cottage, beach_resort] pool_query
     = Inr \<lparr>success = True, count = 1, hotels = [\<lparr>doc = beach_resort, matchScore = Some 45\<rparr>]\<rparr>
   \<and> (0::int) \<le> 45 \<and> (45::int) \<le> 100"
proof -
  let ?e = "\<lparr>doc = beach_resort, matchScore = Some 45\<rparr>"
  let ?r = "\<lparr>success = True, count = 1, hotels = [?e]\<rparr>"
  have run: "hotel_search substring_i [hill_cottage, beach_resort] pool_query = Inr ?r"
    by code_simp
  have "?e \<in> set (hotels ?r)" and "matchScore ?e = Some 45"
    by simp_all
  from matchScore_range [OF run this] run show ?thesis
    by simp
qed

subsection \<open>The location bonus\<close>

lemma lower_char_comma: "lower_char c = CHR '','' \<longleftrightarrow> c = CHR '',''"
proof (cases "(65 \<le> (of_char c :: nat) \<and> (of_char c :: nat) \<le> 90)
             \<or> (192 \<le> (of_char c :: nat) \<and> (of_char c :: nat) \<le> 222 \<and> (of_char c :: nat) \<noteq> 215)")
  case True
  then have l: "lower_char c = char_of ((of_char c :: nat) + 32)"
    by (simp add: lower_char_def)
  have "(of_char (lower_char c) :: nat) = of_char c + 32"
    unfolding l using True by (auto simp: of_char_of)
  then have "(of_char (lower_char c) :: nat) \<noteq> 44" "(of_char c :: nat) \<noteq> 44"
    using True by auto
  then have "lower_char c \<noteq> CHR '',''" "c \<noteq> CHR '',''"
    by auto
  then show ?thesis by simp
next
  case False
  then have "lower_char c = c"
    by (auto simp: lower_char_def Let_def)
  then show ?thesis by simp
qed

lemma split_comma_0_lower: "split_comma_0 (toLowerCase s) = toLowerCase (split_comma_0 s)"
  by (simp add: split_comma_0_def toLowerCase_def takeWhile_map comp_def lower_char_comma)

lemma split_comma_0_append:
  "CHR '','' \<notin> set a \<Longrightarrow> split_comma_0 (a @ CHR '','' # b) = split_comma_0 a"
  unfolding split_comma_0_def by (induction a) auto

text \<open>
  The bonus as the specification words it, with the segment trimmed, is not the handler's:
  for the location \<open>Goa , India\<close> the segment is \<open>goa\<close> followed by a space, which the
  query \<open>trip to goa\<close> does not contain, while the trimmed segment \<open>goa\<close> is in it.
\<close>

theorem location_bonus_trim_counterexample:
  "location_bonus (toLowerCase ''trip to goa'') hill_cottage = 0
   \<and> spec_location_bonus ''trip to goa'' hill_cottage = 30"
  by code_simp

text \<open>
  C2, amended. 30 points are added exactly when the first comma-delimited segment of the
  record's location, lower-cased and not trimmed, occurs in the lower-cased query. What
  follows the first comma has no part in it: the bonus is the one of the first segment
  alone.
\<close>

theorem location_bonus_first_segment:
  "location_bonus (toLowerCase q) h =
     (if sublist (toLowerCase (split_comma_0 (or_empty (location h)))) (toLowerCase q)
      then 30 else 0)
   \<and> (CHR '','' \<notin> set a \<longrightarrow>
        location_bonus (toLowerCase q) (h\<lparr>location := Some (a @ CHR '','' # b)\<rparr>)
          = location_bonus (toLowerCase q) (h\<lparr>location := Some a\<rparr>))"
proof -
  have eq: "location_bonus (toLowerCase q) h' =
     (if sublist (toLowerCase (split_comma_0 (or_empty (location h')))) (toLowerCase q)
      then 30 else 0)" for h'
    by (simp add: location_bonus_def Let_def str_includes_sublist split_comma_0_lower
        toLowerCase_idem)
  show ?thesis
    by (simp add: eq or_empty_def split_comma_0_append)
qed

theorem location_bonus_first_segment_witness:
  "location_bonus (toLowerCase ''Hotels in GOA'') beach_resort = 0
   \<and> location_bonus (toLowerCase ''Stay at Calangute'') beach_resort = 30
   \<and> CHR '','' \<notin> set ''Calangute''
   \<and> location_bonus (toLowerCase ''Hotels in GOA'')
         (beach_resort\<lparr>location := Some (''Calangute'' @ CHR '','' # '' Goa'')\<rparr>)
       = location_bonus (toLowerCase ''Hotels in GOA'')
           (beach_resort\<lparr>location := Some ''Calangute''\<rparr>)"
proof -
  have "\<not> sublist (toLowerCase (split_comma_0 (or_empty (location beach_resort))))
           (toLowerCase ''Hotels in GOA'')"
    and "sublist (toLowerCase (split_comma_0 (or_empty (location beach_resort))))
           (toLowerCase ''Stay at Calangute'')"
    by code_simp+
  moreover have "CHR '','' \<notin> set ''Calangute''"
    by simp
  ultimately show ?thesis
    using location_bonus_first_segment [of "''Hotels in GOA''" beach_resort "''Calangute''" "'' Goa''"]
      location_bonus_first_segment [of "''Stay at Calangute''" beach_resort "''Calangute''" "'' Goa''"]
    by simp
qed

subsection \<open>Keywords inside other words\<close>

lemma sum_list_ge_two:
  assumes "\<And>x. 0 \<le> f x"
  shows "f a + f b \<le> (\<Sum>x\<leftarrow>as @ a # b # bs. (f x :: int))"
proof -
  have "0 \<le> sum_list (map f as)" "0 \<le> sum_list (map f bs)"
    by (auto intro!: sum_list_nonneg assms)
  then show ?thesis by simp
qed

lemma sublist_trans: "sublist a b \<Longrightarrow> sublist b c \<Longrightarrow> sublist a c"
  by (rule sublist_order.order.trans)

text \<open>
  C10. A keyword is looked for as a substring, not as a word. When \<open>beach\<close> is in the
  query and in the title or the description, the keywords \<open>beach\<close> and \<open>ac\<close> each add 20,
  \<open>ac\<close> being inside \<open>beach\<close>, so the loop yields 40 or more; and a query that contains
  \<open>search\<close> passes the test of the keyword \<open>sea\<close>.
\<close>

theorem substring_activation:
  "(sublist ''beach'' (toLowerCase q) \<and>
    (sublist ''beach'' (toLowerCase (or_empty (title h)))
     \<or> sublist ''beach'' (toLowerCase (or_empty (description h))))
    \<longrightarrow> keyword_step (toLowerCase q) h s ''beach'' \<ge> s + 20
        \<and> keyword_step (toLowerCase q) h s ''ac'' \<ge> s + 20
        \<and> keyword_score (toLowerCase q) h \<ge> 40)
   \<and> (sublist ''search'' (toLowerCase q) \<longrightarrow> str_includes (toLowerCase q) ''sea'')"
proof -
  have ac: "sublist ''ac'' ''beach''" and sea: "sublist ''sea'' ''search''"
    by code_simp+
  have low: "toLowerCase ''beach'' = ''beach''" "toLowerCase ''ac'' = ''ac''"
    by code_simp+
  have kw: "keywords_list = [''pool'', ''wifi'', ''parking''] @ ''beach'' # ''ac'' #
              [''air conditioning'', ''kitchen'', ''gym'', ''spa'', ''garden'', ''luxury'',
               ''budget'', ''family'', ''couple'', ''business'', ''mountain'', ''hill'', ''sea'']"
    by (simp add: keywords_list_def)
  {
    assume q: "sublist ''beach'' (toLowerCase q)"
      and t: "sublist ''beach'' (toLowerCase (or_empty (title h)))
              \<or> sublist ''beach'' (toLowerCase (or_empty (description h)))"
    have q': "sublist ''ac'' (toLowerCase q)"
      using ac q by (rule sublist_trans)
    have t': "sublist ''ac'' (toLowerCase (or_empty (title h)))
              \<or> sublist ''ac'' (toLowerCase (or_empty (description h)))"
      using t ac by (blast intro: sublist_trans)
    have b: "20 \<le> spec_keyword_points q h ''beach''"
      using q t by (simp add: spec_keyword_points_def ci_substring_def low)
    have a: "20 \<le> spec_keyword_points q h ''ac''"
      using q' t' by (simp add: spec_keyword_points_def ci_substring_def low)
    have "spec_keyword_points q h ''beach'' + spec_keyword_points q h ''ac''
            \<le> keyword_score (toLowerCase q) h"
      unfolding keyword_score_points kw
      by (rule sum_list_ge_two) (rule spec_keyword_points_nonneg)
    then have "keyword_step (toLowerCase q) h s ''beach'' \<ge> s + 20
        \<and> keyword_step (toLowerCase q) h s ''ac'' \<ge> s + 20
        \<and> keyword_score (toLowerCase q) h \<ge> 40"
      using a b by (simp add: keyword_step_points low)
  }
  moreover have "str_includes (toLowerCase q) ''sea''" if "sublist ''search'' (toLowerCase q)"
    using sublist_trans [OF sea that] by (simp add: str_includes_sublist)
  ultimately show ?thesis by blast
qed

theorem substring_activation_witness:
  "keyword_score (toLowerCase ''Search a BEACH stay'') sea_view \<ge> 40
   \<and> str_includes (toLowerCase ''Search a BEACH stay'') ''sea''"
proof -
  have "sublist ''beach'' (toLowerCase ''Search a BEACH stay'')"
    and "sublist ''beach'' (toLowerCase (or_empty (title sea_view)))"
    and "sublist ''search'' (toLowerCase ''Search a BEACH stay'')"
    by code_simp+
  then show ?thesis
    using substring_activation [of "''Search a BEACH stay''" sea_view 0] by simp
qed

subsection \<open>The sort by score\<close>

lemma filter_insert_by:
  assumes "\<And>y. y \<in> set ys \<Longrightarrow> P x \<Longrightarrow> P y \<Longrightarrow> cmp x y \<le> 0"
  shows "filter P (insert_by cmp x ys) = (if P x then x # filter P ys else filter P ys)"
  using assms by (induction ys) auto

lemma filter_array_sort:
  assumes "\<And>x y. x \<in> set xs \<Longrightarrow> y \<in> set xs \<Longrightarrow> P x \<Longrightarrow> P y \<Longrightarrow> cmp x y \<le> 0"
  shows "filter P (array_sort cmp xs) = filter P xs"
  using assms
proof (induction xs)
  case Nil
  then show ?case by (simp add: array_sort_Nil)
next
  case (Cons x xs)
  have ih: "filter P (array_sort cmp xs) = filter P xs"
    using Cons by simp
  have "filter P (insert_by cmp x (array_sort cmp xs))
          = (if P x then x # filter P (array_sort cmp xs) else filter P (array_sort cmp xs))"
    by (rule filter_insert_by) (simp add: set_array_sort Cons.prems)
  then show ?case
    by (simp add: array_sort_Cons ih)
qed

lemma sorted_insert_by_score:
  assumes "sorted_wrt score_ge ys" and "matchScore x \<noteq> None" and "\<forall>y \<in> set ys. matchScore y \<noteq> None"
  shows "sorted_wrt score_ge (insert_by by_score x ys)"
  using assms
proof (induction ys)
  case Nil
  then show ?case by simp
next
  case (Cons y ys)
  obtain sx sy where sx: "matchScore x = Some sx" and sy: "matchScore y = Some sy"
    using Cons.prems by auto
  show ?case
  proof (cases "by_score x y \<le> 0")
    case True
    then have "sy \<le> sx" by (simp add: by_score_def sx sy)
    then have "score_ge x z" if "z = y \<or> score_ge y z" for z
      using that sx sy by (auto simp: score_ge_def)
    then show ?thesis using True Cons.prems(1) by auto
  next
    case False
    then have "score_ge y x" by (simp add: by_score_def sx sy score_ge_def)
    moreover have "sorted_wrt score_ge (insert_by by_score x ys)"
      using Cons by simp
    ultimately show ?thesis
      using False Cons.prems(1) by (auto simp: set_insert_by)
  qed
qed

lemma sorted_array_sort_by_score:
  "\<forall>e \<in> set xs. matchScore e \<noteq> None \<Longrightarrow> sorted_wrt score_ge (array_sort by_score xs)"
proof (induction xs)
  case Nil
  then show ?case by (simp add: array_sort_Nil)
next
  case (Cons x xs)
  then have "sorted_wrt score_ge (insert_by by_score x (array_sort by_score xs))"
    by (intro sorted_insert_by_score) (simp_all add: set_array_sort)
  then show ?case by (simp add: array_sort_Cons)
qed

lemma sorted_wrt_amenity_stage:
  "sorted_wrt R es \<Longrightarrow> sorted_wrt R (amenity_stage a es)"
  by (auto simp: amenity_stage_def sorted_wrt_filter split: option.splits)

text \<open>
  C5. With a query and a working set that is not empty, the scored list is sorted by
  \<open>matchScore\<close>, largest first, and the sort is stable: it permutes the scored list, and
  for every score the entries that carry it come in the order they had before the sort.
  The list of the response, cut from the sorted one, is sorted as well.
\<close>

theorem sort_descending_stable:
  assumes "query p = Some qs" and "qs \<noteq> []"
    and "Listing_find rx db (build_filter p) = Inr found" and "found \<noteq> []"
  shows "sorted_wrt score_ge (scoring_stage (query p) found)
    \<and> mset (scoring_stage (query p) found) = mset (map (score_hotel (toLowerCase qs)) found)
    \<and> (\<forall>s. filter (\<lambda>e. matchScore e = Some s) (scoring_stage (query p) found)
             = filter (\<lambda>e. matchScore e = Some s) (map (score_hotel (toLowerCase qs)) found))
    \<and> (\<exists>r. hotel_search rx db p = Inr r \<and> sorted_wrt score_ge (hotels r)
             \<and> hotels r = take 20 (amenity_stage (amenity p) (scoring_stage (query p) found)))"
proof -
  let ?xs = "map (score_hotel (toLowerCase qs)) found"
  have st: "scoring_stage (query p) found = array_sort by_score ?xs"
    unfolding assms(1) using assms(2,4) by (rule scoring_stage_scored)
  have scored: "\<forall>e \<in> set ?xs. matchScore e \<noteq> None"
    by (simp add: score_hotel_def)
  have 1: "sorted_wrt score_ge (array_sort by_score ?xs)"
    using scored by (rule sorted_array_sort_by_score)
  have 2: "mset (array_sort by_score ?xs) = mset ?xs"
    by (rule mset_array_sort)
  have 3: "filter (\<lambda>e. matchScore e = Some s) (array_sort by_score ?xs)
             = filter (\<lambda>e. matchScore e = Some s) ?xs" for s
    by (rule filter_array_sort) (simp add: by_score_def)
  let ?hs = "take 20 (amenity_stage (amenity p) (array_sort by_score ?xs))"
  have run: "hotel_search rx db p = Inr \<lparr>success = True, count = length ?hs, hotels = ?hs\<rparr>"
    by (simp add: hotel_search_def assms(3) st Let_def)
  have "sorted_wrt score_ge ?hs"
    using 1 by (intro sorted_wrt_take sorted_wrt_amenity_stage)
  then have 4: "\<exists>r. hotel_search rx db p = Inr r \<and> sorted_wrt score_ge (hotels r)
             \<and> hotels r = take 20 (amenity_stage (amenity p) (array_sort by_score ?xs))"
    using run by simp
  show ?thesis
    unfolding st using 1 2 3 4 by blast
qed

theorem sort_descending_stable_witness:
  "\<exists>r. hotel_search substring_i [hill_cottage, beach_resort, hill_annexe] pool_only = Inr r
       \<and> hotels r = [\<lparr>doc = beach_resort, matchScore = Some 45\<rparr>,
                      \<lparr>doc = hill_cottage, matchScore = Some 0\<rparr>,
                      \<lparr>doc = hill_annexe, matchScore = Some 0\<rparr>]"
proof -
  have q: "query pool_only = Some ''pool''" "''pool'' \<noteq> []"
    by (simp_all add: pool_only_def)
  have find: "Listing_find substring_i [hill_cottage, beach_resort, hill_annexe]
                (build_filter pool_only) = Inr [hill_cottage, beach_resort, hill_annexe]"
    by code_simp
  have ne: "[hill_cottage, beach_resort, hill_annexe] \<noteq> []"
    by simp
  have "take 20 (amenity_stage (amenity pool_only)
          (scoring_stage (query pool_only) [hill_cottage, beach_resort, hill_annexe]))
        = [\<lparr>doc = beach_resort, matchScore = Some 45\<rparr>,
           \<lparr>doc = hill_cottage, matchScore = Some 0\<rparr>,
           \<lparr>doc = hill_annexe, matchScore = Some 0\<rparr>]"
    by code_simp
  then show ?thesis
    using sort_descending_stable [OF q find ne] by auto
qed

subsection \<open>The filter handed to the store\<close>












subsection \<open>The cap on the result\<close>

text \<open>
  C7. Whatever the parameters and the collection, a response holds at most 20 records,
  the first 20 of the list after the scoring and the amenity filter, and its \<open>count\<close> is
  the length of that list. The handler gives no list only when the store rejects a
  \<open>maxPrice\<close> in which \<open>parseInt\<close> finds no number.
\<close>

theorem result_cap:
  "(case hotel_search rx db p of
      Inr r \<Rightarrow> length (hotels r) \<le> 20 \<and> count r = length (hotels r) \<and> success r
        \<and> (\<exists>found. Listing_find rx db (build_filter p) = Inr found
             \<and> hotels r = take 20 (amenity_stage (amenity p) (scoring_stage (query p) found)))
    | Inl e \<Rightarrow> (\<exists>m. maxPrice p = Some m \<and> m \<noteq> [] \<and> parseInt m = NaN))"
proof (cases "hotel_search rx db p")
  case (Inr r)
  then show ?thesis
    by (auto elim!: hotel_search_Inr)
next
  case (Inl e)
  then have "f_price (build_filter p) = Some NaN"
    by (auto simp: hotel_search_def Listing_find_def Let_def split: if_splits sum.splits)
  then have "\<exists>m. maxPrice p = Some m \<and> m \<noteq> [] \<and> parseInt m = NaN"
    by (auto simp: build_filter_def Let_def split: option.splits if_splits)
  then show ?thesis using Inl by simp
qed

theorem result_cap_witness:
  "\<exists>r. hotel_search substring_i (replicate 21 hill_cottage) no_params = Inr r
       \<and> length (hotels r) \<le> 20 \<and> count r = length (hotels r)"
proof -
  have "maxPrice no_params = None"
    by (simp add: no_params_def)
  then show ?thesis
    using result_cap [where rx = substring_i and db = "replicate 21 hill_cottage" and p = no_params]
    by (cases "hotel_search substring_i (replicate 21 hill_cottage) no_params") simp_all
qed

lemma cap_reached:
  "(case hotel_search substring_i (replicate 21 hill_cottage) no_params of
      Inr r \<Rightarrow> count r | Inl e \<Rightarrow> 0) = 20"
  by code_simp

subsection \<open>A search without a query\<close>

lemma amenity_stage_unscored:
  "amenity_stage a (map unscored hs) =
     map unscored (case a of None \<Rightarrow> hs
        | Some am \<Rightarrow> if am \<noteq> [] then filter (\<lambda>h. amenity_ok (toLowerCase am) (unscored h)) hs else hs)"
  by (simp add: amenity_stage_def filter_map comp_def split: option.splits)

text \<open>
  C6. When the query is absent or empty, or the store returned nothing, no record of the
  response has a \<open>matchScore\<close>, and the response is the first 20 records, in the store's
  order, of those that the store returned for the location and the price and that pass
  the amenity filter.
\<close>

theorem no_query_no_score:
  assumes "Listing_find rx db (build_filter p) = Inr found"
    and "query p = None \<or> query p = Some [] \<or> found = []"
  shows "\<exists>r. hotel_search rx db p = Inr r
     \<and> hotels r = map unscored (take 20
          (case amenity p of None \<Rightarrow> found
           | Some am \<Rightarrow> if am \<noteq> [] then filter (\<lambda>h. amenity_ok (toLowerCase am) (unscored h)) found
                        else found))
     \<and> (\<forall>e \<in> set (hotels r). matchScore e = None)
     \<and> found = filter (satisfies rx (build_filter p)) db"
proof -
  have st: "scoring_stage (query p) found = map unscored found"
    using assms(2) by (rule scoring_stage_unscored)
  have fnd: "found = filter (satisfies rx (build_filter p)) db"
    using assms(1) by (rule Listing_find_Inr)
  let ?hs = "case amenity p of None \<Rightarrow> found
           | Some am \<Rightarrow> if am \<noteq> [] then filter (\<lambda>h. amenity_ok (toLowerCase am) (unscored h)) found
                        else found"
  let ?r = "\<lparr>success = True, count = length (map unscored (take 20 ?hs)),
             hotels = map unscored (take 20 ?hs)\<rparr>"
  have run: "hotel_search rx db p = Inr ?r"
    by (simp add: hotel_search_def assms(1) st amenity_stage_unscored take_map Let_def)
  have none: "\<forall>e \<in> set (hotels ?r). matchScore e = None"
    by (auto simp: unscored_def)
  show ?thesis
    using run none fnd by (intro exI [of _ ?r]) simp
qed

theorem no_query_no_score_witness:
  "\<exists>r. hotel_search substring_i [hill_cottage, beach_resort] (pool_query\<lparr>query := None\<rparr>) = Inr r
       \<and> hotels r = [\<lparr>doc = beach_resort, matchScore = None\<rparr>]"
proof -
  let ?p = "pool_query\<lparr>query := None\<rparr>"
  have find: "Listing_find substring_i [hill_cottage, beach_resort] (build_filter ?p)
                = Inr [hill_cottage, beach_resort]"
    by code_simp
  have q: "query ?p = None \<or> query ?p = Some [] \<or> [hill_cottage, beach_resort] = []"
    by simp
  have "map unscored (take 20
          (case amenity ?p of None \<Rightarrow> [hill_cottage, beach_resort]
           | Some am \<Rightarrow> if am \<noteq> []
               then filter (\<lambda>h. amenity_ok (toLowerCase am) (unscored h)) [hill_cottage, beach_resort]
               else [hill_cottage, beach_resort]))
        = [\<lparr>doc = beach_resort, matchScore = None\<rparr>]"
    by code_simp
  then show ?thesis
    using no_query_no_score [OF find q] by auto
qed

subsection \<open>Two runs, and the objects a run leaves alone\<close>

lemma upt_add_Suc: "[n ..< n + Suc k] = n # [Suc n ..< Suc n + k]"
  by (simp add: upt_conv_Cons)

lemma lean_eq: "lean H ds = (H @ map unscored ds, [length H ..< length H + length ds])"
proof (induction ds arbitrary: H)
  case Nil
  then show ?case by simp
next
  case (Cons d ds)
  have "lean H (d # ds)
          = (H @ unscored d # map unscored ds,
             length H # [Suc (length H) ..< Suc (length H) + length ds])"
    by (simp add: alloc_def Cons.IH)
  then show ?case
    by (simp only: upt_add_Suc list.map length_Cons)

qed

lemma score_copy: "e\<lparr>matchScore := Some (min (raw_score ql (doc e)) 100)\<rparr> = score_hotel ql (doc e)"
  by (simp add: score_hotel_def)

lemma map_score_eq:
  "\<forall>a \<in> set as. a < length H \<Longrightarrow>
   map_score ql H as
     = (H @ map (\<lambda>a. score_hotel ql (doc (H ! a))) as, [length H ..< length H + length as])"
proof (induction as arbitrary: H)
  case Nil
  then show ?case by simp
next
  case (Cons a as)
  let ?new = "score_hotel ql (doc (H ! a))"
  have valid: "\<forall>a' \<in> set as. a' < length (H @ [?new])"
    using Cons.prems by auto
  have same: "map (\<lambda>a'. score_hotel ql (doc ((H @ [?new]) ! a'))) as
                = map (\<lambda>a'. score_hotel ql (doc (H ! a'))) as"
    using Cons.prems by (auto simp: nth_append)
  have "map_score ql H (a # as)
          = (H @ ?new # map (\<lambda>a. score_hotel ql (doc (H ! a))) as,
             length H # [Suc (length H) ..< Suc (length H) + length as])"
    by (simp add: alloc_def score_copy Cons.IH [OF valid] same)
  then show ?case
    by (simp only: upt_add_Suc list.map length_Cons)
qed

lemma map_nth_new: "map (\<lambda>r. (H @ xs) ! r) [length H ..< length H + length xs] = xs"
  by (rule nth_equalityI) (simp_all add: nth_append)

lemma map_insert_by:
  "map f (insert_by (\<lambda>a b. c (f a) (f b)) x ys) = insert_by c (f x) (map f ys)"
  by (induction ys) simp_all

lemma map_array_sort:
  "map f (array_sort (\<lambda>a b. c (f a) (f b)) xs) = array_sort c (map f xs)"
  by (induction xs) (simp_all add: array_sort_Nil array_sort_Cons map_insert_by)

lemma score_refs_eq:
  assumes "hotels0 = [n ..< n + length found]" and "n + length found \<le> length H"
    and "map (\<lambda>r. H ! r) hotels0 = map unscored found"
  shows "map (\<lambda>r. fst (score_refs q H hotels0) ! r) (snd (score_refs q H hotels0))
           = scoring_stage q found
         \<and> take (length H) (fst (score_refs q H hotels0)) = H"
proof -
  have len: "length hotels0 = length found"
    by (simp add: assms(1))
  have valid: "\<forall>a \<in> set hotels0. a < length H"
    using assms(1,2) by auto
  have docs: "map (\<lambda>a. score_hotel ql (doc (H ! a))) hotels0 = map (score_hotel ql) found" for ql
  proof -
    have "map (\<lambda>a. score_hotel ql (doc (H ! a))) hotels0
            = map (\<lambda>e. score_hotel ql (doc e)) (map (\<lambda>r. H ! r) hotels0)"
      by (simp add: comp_def)
    also have "\<dots> = map (score_hotel ql) found"
      by (simp add: assms(3) comp_def unscored_def)
    finally show ?thesis .
  qed
  show ?thesis
  proof (cases "\<exists>qs. q = Some qs \<and> qs \<noteq> [] \<and> found \<noteq> []")
    case True
    then obtain qs where q: "q = Some qs" "qs \<noteq> []" "found \<noteq> []"
      by blast
    let ?new = "map (score_hotel (toLowerCase qs)) found"
    let ?H1 = "H @ ?new"
    let ?rs = "[length H ..< length H + length ?new]"
    have ms: "map_score (toLowerCase qs) H hotels0 = (?H1, ?rs)"
      using map_score_eq [OF valid, of "toLowerCase qs"] by (simp add: docs len)
    have sr: "score_refs q H hotels0
                = (?H1, array_sort (\<lambda>a b. by_score (?H1 ! a) (?H1 ! b)) ?rs)"
      using q by (simp add: score_refs_def ms len)
    have "map (\<lambda>r. ?H1 ! r) (array_sort (\<lambda>a b. by_score (?H1 ! a) (?H1 ! b)) ?rs)
            = array_sort by_score (map (\<lambda>r. ?H1 ! r) ?rs)"
      by (rule map_array_sort)
    also have "\<dots> = array_sort by_score ?new"
      by (simp only: map_nth_new)
    finally have "map (\<lambda>r. ?H1 ! r) (array_sort (\<lambda>a b. by_score (?H1 ! a) (?H1 ! b)) ?rs)
                    = scoring_stage q found"
      by (simp add: q scoring_stage_scored)
    then show ?thesis
      unfolding sr by simp
  next
    case False
    then have un: "q = None \<or> q = Some [] \<or> found = []"
      by (cases q) auto
    then have "score_refs q H hotels0 = (H, hotels0)"
      by (auto simp: score_refs_def len split: option.splits)
    then show ?thesis
      using un by (simp add: scoring_stage_unscored assms(3))
  qed
qed

lemma amenity_refs_eq:
  "map (\<lambda>r. H ! r) (amenity_refs a H rs) = amenity_stage a (map (\<lambda>r. H ! r) rs)"
  by (simp add: amenity_refs_def amenity_stage_def filter_map comp_def split: option.splits)

lemma run_search_Inr:
  assumes "Listing_find rx db (build_filter p) = Inr found"
  shows "snd (run_search rx db p H) = hotel_search rx db p
         \<and> take (length H + length found) (fst (run_search rx db p H)) = H @ map unscored found"
proof -
  let ?H1 = "H @ map unscored found"
  let ?hs0 = "[length H ..< length H + length found]"
  obtain H2 hs1 where sr: "score_refs (query p) ?H1 ?hs0 = (H2, hs1)"
    by (cases "score_refs (query p) ?H1 ?hs0") blast
  have m: "map (\<lambda>r. ?H1 ! r) ?hs0 = map unscored found"
    using map_nth_new [of H "map unscored found"] by simp
  have "map (\<lambda>r. fst (score_refs (query p) ?H1 ?hs0) ! r) (snd (score_refs (query p) ?H1 ?hs0))
           = scoring_stage (query p) found
         \<and> take (length ?H1) (fst (score_refs (query p) ?H1 ?hs0)) = ?H1"
    by (rule score_refs_eq [where n = "length H"]) (simp_all add: m)
  then have vals: "map (\<lambda>r. H2 ! r) hs1 = scoring_stage (query p) found"
    and frame: "take (length H + length found) H2 = ?H1"
    by (simp_all add: sr)
  have run: "run_search rx db p H
     = (H2, Inr \<lparr>success = True, count = length (take 20 (amenity_refs (amenity p) H2 hs1)),
                 hotels = map (\<lambda>r. H2 ! r) (take 20 (amenity_refs (amenity p) H2 hs1))\<rparr>)"
    by (simp add: run_search_def assms lean_eq sr Let_def)
  have "map (\<lambda>r. H2 ! r) (take 20 (amenity_refs (amenity p) H2 hs1))
          = take 20 (amenity_stage (amenity p) (scoring_stage (query p) found))"
    by (simp add: take_map [symmetric] amenity_refs_eq vals)
  moreover have "length (take 20 (amenity_refs (amenity p) H2 hs1))
          = length (take 20 (amenity_stage (amenity p) (scoring_stage (query p) found)))"
    using calculation by (metis length_map)
  ultimately have "snd (run_search rx db p H) = hotel_search rx db p"
    by (simp add: run hotel_search_def assms Let_def)
  then show ?thesis
    using frame by (simp add: run)
qed

text \<open>
  C9. The handler reads the parameters and the store's result and nothing else, and
  writes to no object it did not create. From any heap the response is the value of
  \<open>hotel_search\<close>, so two invocations with the same parameters on the same collection give
  the same response, the same records in the same order with the same scores, whatever
  the heaps they start from, and in particular when the second follows the first. Every
  object that was in the heap before the run, and every object that the store handed
  over, is in the heap after it as it was: the scored entries are new objects.
\<close>

theorem search_is_pure:
  "snd (run_search rx db p H) = hotel_search rx db p
   \<and> snd (run_search rx db p H') = snd (run_search rx db p H)
   \<and> snd (run_search rx db p (fst (run_search rx db p H))) = snd (run_search rx db p H)
   \<and> take (length H) (fst (run_search rx db p H)) = H
   \<and> (\<forall>found. Listing_find rx db (build_filter p) = Inr found \<longrightarrow>
        take (length H + length found) (fst (run_search rx db p H)) = H @ map unscored found)"
proof -
  have val: "snd (run_search rx db p H0) = hotel_search rx db p" for H0
  proof (cases "Listing_find rx db (build_filter p)")
    case (Inl e)
    then show ?thesis by (simp add: run_search_def hotel_search_def)
  next
    case (Inr found)
    then show ?thesis using run_search_Inr by blast
  qed
  have frame: "take (length H + length found) (fst (run_search rx db p H)) = H @ map unscored found"
    if "Listing_find rx db (build_filter p) = Inr found" for found
    using run_search_Inr [OF that] by blast
  have old: "take (length H) (fst (run_search rx db p H)) = H"
  proof (cases "Listing_find rx db (build_filter p)")
    case (Inl e)
    then show ?thesis by (simp add: run_search_def)
  next
    case (Inr found)
    have "take (length H) (take (length H + length found) (fst (run_search rx db p H))) = H"
      by (simp only: frame [OF Inr]) simp
    then show ?thesis by (simp add: min_def)
  qed
  show ?thesis
    using val frame old by simp
qed

theorem search_is_pure_witness:
  "snd (run_search substring_i [hill_cottage, beach_resort] pool_query [unscored sea_view])
     = Inr \<lparr>success = True, count = 1, hotels = [\<lparr>doc = beach_resort, matchScore = Some 45\<rparr>]\<rparr>
   \<and> take 3 (fst (run_search substring_i [hill_cottage, beach_resort] pool_query [unscored sea_view]))
       = [unscored sea_view, unscored hill_cottage, unscored beach_resort]"
proof -
  let ?H = "[unscored sea_view]"
  have find: "Listing_find substring_i [hill_cottage, beach_resort] (build_filter pool_query)
                = Inr [hill_cottage, beach_resort]"
    by code_simp
  have run: "hotel_search substring_i [hill_cottage, beach_resort] pool_query
     = Inr \<lparr>success = True, count = 1, hotels = [\<lparr>doc = beach_resort, matchScore = Some 45\<rparr>]\<rparr>"
    by code_simp
  note inst = search_is_pure [of substring_i "[hill_cottage, beach_resort]" pool_query ?H ?H]
  have "snd (run_search substring_i [hill_cottage, beach_resort] pool_query ?H)
          = hotel_search substring_i [hill_cottage, beach_resort] pool_query"
    using inst by (rule conjunct1)
  moreover have "take (length ?H + length [hill_cottage, beach_resort])
                   (fst (run_search substring_i [hill_cottage, beach_resort] pool_query ?H))
                 = ?H @ map unscored [hill_cottage, beach_resort]"
    using inst find by blast
  ultimately show ?thesis
    by (simp add: run numeral_3_eq_3)
qed

end
